theory Spec2Isabelle
  imports Main "HOL-Library.Word"
begin

unbundle bit_operations_syntax

section \<open>JavaScript values used by the library\<close>

text \<open>
  A \<open>Uint8Array\<close> is a list of 8-bit words. The operators \<open>>>\<close>, \<open><<\<close>, \<open>&\<close> and
  \<open>|\<close> of the source work on 32-bit integers; their operands are 32-bit words here,
  and a store into a \<open>Uint8Array\<close> keeps the low eight bits (\<open>ucast\<close>).
  The numeric arguments \<open>planes\<close> and \<open>planeWidth\<close> are integers of either sign.
\<close>

type_synonym u8 = "8 word"
type_synonym i32 = "32 word"

text \<open>
  The two exceptions the code can raise: the \<open>RangeError\<close> of the typed-array
  constructor, and the \<open>Error\<close> thrown by hand, with its message.
\<close>

datatype js_error = RangeError | Error string

text \<open>
  Number to string, for an integer below \<open>10^21\<close> in size: decimal digits, with a minus
  sign when negative.
\<close>

fun digits :: "nat \<Rightarrow> string" where
  "digits n = (if n < 10 then [''0123456789'' ! n]
               else digits (n div 10) @ [''0123456789'' ! (n mod 10)])"

declare digits.simps [simp del]

definition number_string :: "int \<Rightarrow> string" where
  "number_string i = (if i < 0 then CHR ''-'' # digits (nat (- i)) else digits (nat i))"

text \<open>
  \<open>new Uint8Array(num / den)\<close>: the length is the quotient as a Number, truncated
  towards zero. A zero divisor gives \<open>NaN\<close> (length 0) when \<open>num\<close> is zero and an
  infinity otherwise; an infinite or negative length raises \<open>RangeError\<close>. The new
  array is filled with zeros.
\<close>

definition new_Uint8Array :: "int \<Rightarrow> int \<Rightarrow> js_error + u8 list" where
  "new_Uint8Array num den =
     (if den = 0 then (if num = 0 then Inr [] else Inl RangeError)
      else let q = sgn num * sgn den * (\<bar>num\<bar> div \<bar>den\<bar>)
           in if q < 0 then Inl RangeError else Inr (replicate (nat q) 0))"

text \<open>
  Reading past the end of an array gives \<open>undefined\<close>, which the bit operators take
  as 0. Writing to an index that is \<open>NaN\<close> (\<open>None\<close>), negative or past the end of a
  typed array does nothing.
\<close>

definition read_int32 :: "u8 list \<Rightarrow> nat \<Rightarrow> i32" where
  "read_int32 xs i = (if i < length xs then ucast (xs ! i) else 0)"

definition or_assign :: "u8 list \<Rightarrow> int option \<Rightarrow> i32 \<Rightarrow> u8 list" where
  "or_assign out idx v =
     (case idx of
        None \<Rightarrow> out
      | Some j \<Rightarrow>
          if 0 \<le> j \<and> j < int (length out)
          then out[nat j := ucast (ucast (out ! nat j) OR v)]
          else out)"

text \<open>
  \<open>a % b\<close> for an integer \<open>a \<ge> 0\<close>: the result has the sign of the dividend, and
  is \<open>NaN\<close> (\<open>None\<close>) when \<open>b\<close> is zero.
\<close>

definition js_rem :: "nat \<Rightarrow> int \<Rightarrow> nat option" where
  "js_rem a b = (if b = 0 then None else Some (a mod nat \<bar>b\<bar>))"

text \<open>\<open>Math.ceil(w / 8)\<close>.\<close>

definition ceil_div8 :: "int \<Rightarrow> int" where
  "ceil_div8 w = - ((- w) div 8)"

section \<open>util/image-planar.js\<close>

subsection \<open>fromPlanar\<close>

text \<open>
  One pass of the inner loop of \<open>fromPlanar\<close>, for pixel \<open>b\<close> of the stride that starts at
  byte \<open>i\<close>. A shift count is taken modulo 32; a \<open>NaN\<close> plane shifts by 0.
\<close>

definition fromPlanar_pixel ::
  "u8 list \<Rightarrow> bool \<Rightarrow> nat \<Rightarrow> nat option \<Rightarrow> nat \<Rightarrow> nat \<Rightarrow> u8 list \<Rightarrow> u8 list" where
  "fromPlanar_pixel content byteOrderMSB i plane outpos b out =
     (let srcByteOffset = b div 8;
          srcBit = (if byteOrderMSB then 7 - (b mod 8) else b mod 8);
          data = read_int32 content (i + srcByteOffset);
          val = push_bit (case plane of None \<Rightarrow> 0 | Some p \<Rightarrow> p mod 32)
                  (drop_bit srcBit data AND 1)
      in or_assign out (Some (int (outpos + b))) val)"

text \<open>
  The outer loop, from byte \<open>i\<close> on. It is entered only with \<open>widthBytes > 0\<close>, which
  is also what makes it end; the first test stands for that.
\<close>

function fromPlanar_loop ::
  "u8 list \<Rightarrow> int \<Rightarrow> nat \<Rightarrow> bool \<Rightarrow> nat \<Rightarrow> nat \<Rightarrow> nat \<Rightarrow> u8 list \<Rightarrow> u8 list" where
  "fromPlanar_loop content planes planeWidth byteOrderMSB widthBytes i outpos out =
     (if widthBytes = 0 then out
      else if i < length content then
        (let plane = js_rem (i div widthBytes) planes;
             out' = fold (fromPlanar_pixel content byteOrderMSB i plane outpos)
                      [0..<planeWidth] out;
             outpos' = (if map_option int plane = Some (planes - 1)
                        then outpos + planeWidth else outpos)
         in fromPlanar_loop content planes planeWidth byteOrderMSB widthBytes
              (i + widthBytes) outpos' out')
      else out)"
  by pat_completeness auto
termination
  by (relation "measure (\<lambda>(content, planes, planeWidth, byteOrderMSB, widthBytes, i, outpos, out).
        length content - i)") auto

declare fromPlanar_loop.simps [simp del]

definition fromPlanar :: "u8 list \<Rightarrow> int \<Rightarrow> int \<Rightarrow> bool \<Rightarrow> js_error + u8 list" where
  "fromPlanar content planes planeWidth byteOrderMSB =
     (case new_Uint8Array (int (length content) * 8) planes of
        Inl e \<Rightarrow> Inl e
      | Inr out \<Rightarrow>
          (let widthBytes = ceil_div8 planeWidth
           in if widthBytes \<le> 0
              then Inl (Error (''fromBytePlanar() planeWidth='' @ number_string planeWidth
                               @ '' too small!''))
              else Inr (fromPlanar_loop content planes (nat planeWidth) byteOrderMSB
                          (nat widthBytes) 0 0 out)))"

subsection \<open>toPlanar\<close>

text \<open>
  One pass of the inner loop of \<open>toPlanar\<close>, for plane \<open>b\<close> of the pixel whose value
  is \<open>data\<close>. The target index is \<open>NaN\<close> when \<open>pixelByte\<close> is.
\<close>

definition toPlanar_plane ::
  "int \<Rightarrow> nat \<Rightarrow> i32 \<Rightarrow> int \<Rightarrow> nat option \<Rightarrow> nat \<Rightarrow> u8 list \<Rightarrow> u8 list" where
  "toPlanar_plane widthBytes pixelBit data outpos pixelByte b out =
     (let val = push_bit pixelBit (drop_bit (b mod 32) data AND 1)
      in or_assign out
           (map_option (\<lambda>pb. outpos + int pb + int b * widthBytes) pixelByte) val)"

text \<open>The body of the outer loop for pixel \<open>i\<close>; the state is \<open>(outpos, out)\<close>.\<close>

definition toPlanar_step ::
  "u8 list \<Rightarrow> int \<Rightarrow> int \<Rightarrow> bool \<Rightarrow> int \<Rightarrow> nat \<Rightarrow> int \<times> u8 list \<Rightarrow> int \<times> u8 list" where
  "toPlanar_step content planes planeWidth byteOrderMSB widthBytes i st =
     (let outpos = fst st;
          out = snd st;
          pixelByte = js_rem (i div 8) widthBytes;
          pixelBit = (if byteOrderMSB then 7 - (i mod 8) else i mod 8);
          data = read_int32 content i;
          out' = fold (toPlanar_plane widthBytes pixelBit data outpos pixelByte)
                   [0..<nat planes] out;
          outpos' = (if map_option int (js_rem i planeWidth) = Some (planeWidth - 1)
                     then outpos + planes * widthBytes else outpos)
      in (outpos', out'))"

definition toPlanar :: "u8 list \<Rightarrow> int \<Rightarrow> int \<Rightarrow> bool \<Rightarrow> js_error + u8 list" where
  "toPlanar content planes planeWidth byteOrderMSB =
     (case new_Uint8Array (int (length content) * planes) 8 of
        Inl e \<Rightarrow> Inl e
      | Inr out \<Rightarrow>
          (let widthBytes = ceil_div8 planeWidth
           in Inr (snd (fold (toPlanar_step content planes planeWidth byteOrderMSB widthBytes)
                          [0..<length content] (0, out)))))"

section \<open>formats/index.js\<close>

subsection \<open>Handlers and their metadata\<close>

text \<open>
  A limit is a number or \<open>undefined\<close> (\<open>None\<close>). A file name is a string whose
  \<open>length\<close> counts its characters; \<open>getContent\<close> is the content the method of that
  name returns.
\<close>

record limits =
  maxFilenameLen :: "int option"
  maxFileCount :: "int option"

record metadata =
  format_id :: string
  title :: string
  games :: "string list"
  glob :: "string list"
  limits :: limits

record archive_file =
  name :: string
  nativeSize :: int
  getContent :: "u8 list"

record archive =
  files :: "archive_file list"

text \<open>
  The result of \<open>identify\<close>: \<open>true\<close>, \<open>false\<close> or \<open>undefined\<close>.
\<close>

datatype confidence = DefiniteMatch | DefiniteNoMatch | PossibleMatch

record handler =
  metadata :: metadata
  identify :: "u8 list \<Rightarrow> confidence"

subsection \<open>checkLimits\<close>

text \<open>A limit used as a condition: \<open>undefined\<close> and 0 are false.\<close>

definition truthy :: "int option \<Rightarrow> bool" where
  "truthy v = (case v of None \<Rightarrow> False | Some n \<Rightarrow> n \<noteq> 0)"

text \<open>A limit inside a template string.\<close>

definition limit_string :: "int option \<Rightarrow> string" where
  "limit_string v = (case v of None \<Rightarrow> ''undefined'' | Some n \<Rightarrow> number_string n)"

text \<open>\<open>a > limit\<close>: a comparison with \<open>undefined\<close> is false.\<close>

definition exceeds :: "nat \<Rightarrow> int option \<Rightarrow> bool" where
  "exceeds a v = (case v of None \<Rightarrow> False | Some n \<Rightarrow> int a > n)"

definition fileCountIssue :: "nat \<Rightarrow> int option \<Rightarrow> string" where
  "fileCountIssue n lim =
     ''There are '' @ number_string (int n) @ '' files to save, but this ''
     @ ''archive format can only store up to '' @ limit_string lim @ '' files.''"

definition filenameIssue :: "archive_file \<Rightarrow> int option \<Rightarrow> string" where
  "filenameIssue f lim =
     ''Filename length is '' @ number_string (int (length (name f))) @ '', max is ''
     @ limit_string lim @ '': '' @ name f"

definition nativeSizeWarning :: "archive_file \<Rightarrow> string" where
  "nativeSizeWarning f =
     ''File '' @ name f @ '' has nativeSize unset but content is ''
     @ number_string (int (length (getContent f))) @ '' bytes.  This will cause slow memory ''
     @ ''reallocations during archive writes and should be fixed if ''
     @ ''possible.''"

text \<open>
  What \<open>checkLimits\<close> can touch: the archive it was given, the \<open>issues\<close> array it
  builds, and the lines it sends to \<open>Debug.warn\<close>.
\<close>

record checkLimits_state =
  the_archive :: archive
  issues :: "string list"
  warned :: "string list"

text \<open>The callbacks of the two \<open>forEach\<close> loops, and \<open>forEach\<close> itself.\<close>

definition check_filename :: "int option \<Rightarrow> archive_file \<Rightarrow> checkLimits_state \<Rightarrow> checkLimits_state" where
  "check_filename lim f s =
     (if exceeds (length (name f)) lim
      then s\<lparr>issues := issues s @ [filenameIssue f lim]\<rparr> else s)"

definition check_nativeSize :: "archive_file \<Rightarrow> checkLimits_state \<Rightarrow> checkLimits_state" where
  "check_nativeSize f s =
     (if nativeSize f = 0
      then (let content = getContent f
            in if length content \<noteq> 0
               then s\<lparr>warned := warned s @ [nativeSizeWarning f]\<rparr> else s)
      else s)"

fun forEach :: "'a list \<Rightarrow> ('a \<Rightarrow> 's \<Rightarrow> 's) \<Rightarrow> 's \<Rightarrow> 's" where
  "forEach [] g s = s"
| "forEach (x # xs) g s = forEach xs g (g x s)"

definition checkLimits_run :: "metadata \<Rightarrow> archive \<Rightarrow> checkLimits_state" where
  "checkLimits_run md a =
     (let lim = limits md;
          s0 = \<lparr>the_archive = a, issues = [], warned = []\<rparr>;
          s1 = (if truthy (maxFileCount lim)
                    \<and> exceeds (length (files (the_archive s0))) (maxFileCount lim)
                then s0\<lparr>issues := issues s0
                       @ [fileCountIssue (length (files (the_archive s0))) (maxFileCount lim)]\<rparr>
                else s0);
          s2 = (if truthy (maxFilenameLen lim)
                then forEach (files (the_archive s1)) (check_filename (maxFilenameLen lim)) s1
                else s1)
      in forEach (files (the_archive s2)) check_nativeSize s2)"

text \<open>The value \<open>checkLimits\<close> returns.\<close>

definition checkLimits :: "metadata \<Rightarrow> archive \<Rightarrow> string list" where
  "checkLimits md a = issues (checkLimits_run md a)"

text \<open>
  The same function with its calls written out. \<open>this.metadata()\<close> returns the
  metadata or raises. \<open>file.getContent()\<close>, called on a file of the archive as the
  archive is at that moment, returns the content together with the archive as the call
  leaves it, or raises. An exception raised by a call ends \<open>checkLimits\<close>.
\<close>

type_synonym getContent_call = "archive_file \<Rightarrow> archive \<Rightarrow> js_error + (u8 list \<times> archive)"

definition check_nativeSize_call ::
  "getContent_call \<Rightarrow> archive_file \<Rightarrow> checkLimits_state \<Rightarrow> js_error + checkLimits_state" where
  "check_nativeSize_call call f s =
     (if nativeSize f = 0
      then (case call f (the_archive s) of
              Inl e \<Rightarrow> Inl e
            | Inr r \<Rightarrow>
                (let content = fst r;
                     s' = s\<lparr>the_archive := snd r\<rparr>
                 in if length content \<noteq> 0
                    then Inr (s'\<lparr>warned := warned s'
                                @ [nativeSizeWarning (f\<lparr>getContent := content\<rparr>)]\<rparr>)
                    else Inr s'))
      else Inr s)"

text \<open>
  \<open>forEach\<close> over the \<open>files\<close> array of the archive while a callback may change it:
  the number of indices to visit is fixed at the start (\<open>n\<close> are left, \<open>k\<close> is next),
  and the element at an index is read when the index is reached, if it is still there.
\<close>

fun forEach_files ::
  "nat \<Rightarrow> nat \<Rightarrow> (archive_file \<Rightarrow> checkLimits_state \<Rightarrow> js_error + checkLimits_state)
     \<Rightarrow> checkLimits_state \<Rightarrow> js_error + checkLimits_state" where
  "forEach_files 0 k g s = Inr s"
| "forEach_files (Suc n) k g s =
     (if k < length (files (the_archive s))
      then (case g (files (the_archive s) ! k) s of
              Inl e \<Rightarrow> Inl e
            | Inr s' \<Rightarrow> forEach_files n (Suc k) g s')
      else forEach_files n (Suc k) g s)"

definition checkLimits_call ::
  "js_error + metadata \<Rightarrow> getContent_call \<Rightarrow> archive \<Rightarrow> js_error + checkLimits_state" where
  "checkLimits_call metadata_result call a =
     (case metadata_result of
        Inl e \<Rightarrow> Inl e
      | Inr md \<Rightarrow>
          (let lim = limits md;
               s0 = \<lparr>the_archive = a, issues = [], warned = []\<rparr>;
               s1 = (if truthy (maxFileCount lim)
                         \<and> exceeds (length (files (the_archive s0))) (maxFileCount lim)
                     then s0\<lparr>issues := issues s0
                            @ [fileCountIssue (length (files (the_archive s0))) (maxFileCount lim)]\<rparr>
                     else s0);
               s2 = (if truthy (maxFilenameLen lim)
                     then forEach (files (the_archive s1)) (check_filename (maxFilenameLen lim)) s1
                     else s1)
           in forEach_files (length (files (the_archive s2))) 0 (check_nativeSize_call call) s2))"

subsection \<open>findHandler\<close>

text \<open>
  The \<open>some\<close> loop over the registry \<open>fileTypes\<close>, which is a parameter here. The state
  is the \<open>handlers\<close> array together with the handlers whose \<open>identify\<close> has been
  called so far. The loop also calls \<open>metadata\<close> on each handler it visits and does
  not use the result.
\<close>

fun findHandler_some ::
  "handler list \<Rightarrow> u8 list \<Rightarrow> handler list \<times> handler list \<Rightarrow> handler list \<times> handler list" where
  "findHandler_some [] content (handlers, called) = (handlers, called)"
| "findHandler_some (x # xs) content (handlers, called) =
     (case identify x content of
        DefiniteMatch \<Rightarrow> ([x], called @ [x])
      | PossibleMatch \<Rightarrow> findHandler_some xs content (handlers @ [x], called @ [x])
      | DefiniteNoMatch \<Rightarrow> findHandler_some xs content (handlers, called @ [x]))"

definition findHandler :: "handler list \<Rightarrow> u8 list \<Rightarrow> handler list" where
  "findHandler fileTypes content = fst (findHandler_some fileTypes content ([], []))"

definition findHandler_called :: "handler list \<Rightarrow> u8 list \<Rightarrow> handler list" where
  "findHandler_called fileTypes content = snd (findHandler_some fileTypes content ([], []))"

section \<open>Facts about the helpers\<close>

lemma length_or_assign [simp]: "length (or_assign out idx v) = length out"
  by (simp add: or_assign_def split: option.split)

lemma new_Uint8Array_nonneg:
  "0 \<le> num \<Longrightarrow> 0 < den \<Longrightarrow> new_Uint8Array num den = Inr (replicate (nat (num div den)) 0)"
  by (simp add: new_Uint8Array_def sgn_if Let_def not_less pos_imp_zdiv_nonneg_iff)

lemma ceil_div8_nonpos: "w \<le> 0 \<Longrightarrow> ceil_div8 w \<le> 0"
  by (simp add: ceil_div8_def pos_imp_zdiv_nonneg_iff)

lemma ceil_div8_pos: "0 < w \<Longrightarrow> 0 < ceil_div8 w"
  unfolding ceil_div8_def by linarith

section \<open>The literal example of fromPlanar\<close>

text \<open>
  Claim C2. \<open>fromPlanar\<close> on the two bytes \<open>0xAA, 0x55\<close> with two planes, a plane
  width of 8 and the most significant bit leftmost returns the eight pixels
  \<open>1,2,1,2,1,2,1,2\<close>. The first byte alone (plane 0) gives bit 0 of each pixel, the
  second byte alone (plane 1) gives bit 1.
\<close>

theorem fromPlanar_example:
  "fromPlanar [0xAA, 0x55] 2 8 True = Inr [1, 2, 1, 2, 1, 2, 1, 2] \<and>
   fromPlanar [0xAA, 0x00] 2 8 True = Inr [1, 0, 1, 0, 1, 0, 1, 0] \<and>
   fromPlanar [0x00, 0x55] 2 8 True = Inr [0, 2, 0, 2, 0, 2, 0, 2]"
  by code_simp

section \<open>Rejection of a plane width that is too small\<close>

text \<open>
  Claim C3. With a plane width of 0 or less, \<open>fromPlanar\<close> fails for every content,
  every \<open>planes\<close> and either bit order: the result is an error, raised before either
  loop is entered, and no buffer. For a plane count, \<open>planes \<ge> 1\<close>, the error is the
  one thrown for the plane width, with the plane width in its message; for any other
  \<open>planes\<close> it is that error or the \<open>RangeError\<close> of an output array whose length
  \<open>content.length * 8 / planes\<close> is not a length.
\<close>

theorem fromPlanar_rejects_planeWidth:
  assumes "planeWidth \<le> 0"
  shows "(fromPlanar content planes planeWidth byteOrderMSB =
            Inl (Error (''fromBytePlanar() planeWidth='' @ number_string planeWidth
                        @ '' too small!''))
          \<or> fromPlanar content planes planeWidth byteOrderMSB = Inl RangeError)
       \<and> (1 \<le> planes \<longrightarrow>
            fromPlanar content planes planeWidth byteOrderMSB =
              Inl (Error (''fromBytePlanar() planeWidth='' @ number_string planeWidth
                          @ '' too small!'')))"
proof -
  let ?e = "Error (''fromBytePlanar() planeWidth='' @ number_string planeWidth @ '' too small!'')"
  have w: "ceil_div8 planeWidth \<le> 0"
    using assms by (rule ceil_div8_nonpos)
  have any: "fromPlanar content planes planeWidth byteOrderMSB = Inl ?e
             \<or> fromPlanar content planes planeWidth byteOrderMSB = Inl RangeError"
  proof (cases "new_Uint8Array (int (length content) * 8) planes")
    case (Inl e)
    then have "e = RangeError"
      by (auto simp: new_Uint8Array_def Let_def split: if_splits)
    with Inl show ?thesis by (simp add: fromPlanar_def)
  next
    case (Inr out)
    with w show ?thesis by (simp add: fromPlanar_def)
  qed
  have count: "fromPlanar content planes planeWidth byteOrderMSB = Inl ?e" if "1 \<le> planes"
    using that w by (simp add: fromPlanar_def new_Uint8Array_nonneg)
  from any count show ?thesis by blast
qed

theorem fromPlanar_rejects_planeWidth_witness:
  "(0::int) \<le> 0 \<and>
   fromPlanar [1, 2, 3, 4] 4 0 True = Inl (Error ''fromBytePlanar() planeWidth=0 too small!'')"
  using fromPlanar_rejects_planeWidth [of 0 "[1, 2, 3, 4]" 4 True]
  by (simp add: number_string_def digits.simps)

section \<open>The registry\<close>

lemma findHandler_some_no_definite:
  "\<forall>h\<in>set xs. identify h content \<noteq> DefiniteMatch \<Longrightarrow>
   findHandler_some xs content (handlers, called) =
     (handlers @ filter (\<lambda>h. identify h content = PossibleMatch) xs, called @ xs)"
proof (induction xs arbitrary: handlers called)
  case Nil
  then show ?case by simp
next
  case (Cons x xs)
  then show ?case by (cases "identify x content") simp_all
qed

lemma findHandler_some_definite:
  assumes "\<forall>h\<in>set pre. identify h content \<noteq> DefiniteMatch"
    and "identify x content = DefiniteMatch"
  shows "findHandler_some (pre @ x # post) content (handlers, called) = ([x], called @ pre @ [x])"
  using assms
proof (induction pre arbitrary: handlers called)
  case Nil
  then show ?case by simp
next
  case (Cons p pre)
  then show ?case by (cases "identify p content") simp_all
qed

text \<open>
  Claim C4. When \<open>x\<close> is the first handler of the registry whose \<open>identify\<close> returns a
  definite match, \<open>findHandler\<close> returns exactly \<open>[x]\<close>: the possible matches found
  before it are dropped, and \<open>identify\<close> has been called on the handlers up to \<open>x\<close>
  and on none after it.
\<close>

theorem findHandler_short_circuit:
  assumes "fileTypes = pre @ x # post"
    and "\<forall>h\<in>set pre. identify h content \<noteq> DefiniteMatch"
    and "identify x content = DefiniteMatch"
  shows "findHandler fileTypes content = [x] \<and> findHandler_called fileTypes content = pre @ [x]"
  using assms by (simp add: findHandler_def findHandler_called_def findHandler_some_definite)

theorem findHandler_short_circuit_witness:
  "findHandler
     [\<lparr>metadata = \<lparr>format_id = ''a'', title = ''A'', games = [], glob = [],
        limits = \<lparr>maxFilenameLen = None, maxFileCount = None\<rparr>\<rparr>,
      identify = (\<lambda>c. PossibleMatch)\<rparr>,
      \<lparr>metadata = \<lparr>format_id = ''b'', title = ''B'', games = [], glob = [],
        limits = \<lparr>maxFilenameLen = None, maxFileCount = None\<rparr>\<rparr>,
      identify = (\<lambda>c. DefiniteMatch)\<rparr>,
      \<lparr>metadata = \<lparr>format_id = ''c'', title = ''C'', games = [], glob = [],
        limits = \<lparr>maxFilenameLen = None, maxFileCount = None\<rparr>\<rparr>,
      identify = (\<lambda>c. DefiniteNoMatch)\<rparr>] []
   = [\<lparr>metadata = \<lparr>format_id = ''b'', title = ''B'', games = [], glob = [],
        limits = \<lparr>maxFilenameLen = None, maxFileCount = None\<rparr>\<rparr>,
      identify = (\<lambda>c. DefiniteMatch)\<rparr>]
   \<and> findHandler_called
     [\<lparr>metadata = \<lparr>format_id = ''a'', title = ''A'', games = [], glob = [],
        limits = \<lparr>maxFilenameLen = None, maxFileCount = None\<rparr>\<rparr>,
      identify = (\<lambda>c. PossibleMatch)\<rparr>,
      \<lparr>metadata = \<lparr>format_id = ''b'', title = ''B'', games = [], glob = [],
        limits = \<lparr>maxFilenameLen = None, maxFileCount = None\<rparr>\<rparr>,
      identify = (\<lambda>c. DefiniteMatch)\<rparr>,
      \<lparr>metadata = \<lparr>format_id = ''c'', title = ''C'', games = [], glob = [],
        limits = \<lparr>maxFilenameLen = None, maxFileCount = None\<rparr>\<rparr>,
      identify = (\<lambda>c. DefiniteNoMatch)\<rparr>] []
   = [\<lparr>metadata = \<lparr>format_id = ''a'', title = ''A'', games = [], glob = [],
        limits = \<lparr>maxFilenameLen = None, maxFileCount = None\<rparr>\<rparr>,
      identify = (\<lambda>c. PossibleMatch)\<rparr>,
      \<lparr>metadata = \<lparr>format_id = ''b'', title = ''B'', games = [], glob = [],
        limits = \<lparr>maxFilenameLen = None, maxFileCount = None\<rparr>\<rparr>,
      identify = (\<lambda>c. DefiniteMatch)\<rparr>]"
  using findHandler_short_circuit
    [of "[\<lparr>metadata = \<lparr>format_id = ''a'', title = ''A'', games = [], glob = [],
        limits = \<lparr>maxFilenameLen = None, maxFileCount = None\<rparr>\<rparr>,
      identify = (\<lambda>c. PossibleMatch)\<rparr>,
      \<lparr>metadata = \<lparr>format_id = ''b'', title = ''B'', games = [], glob = [],
        limits = \<lparr>maxFilenameLen = None, maxFileCount = None\<rparr>\<rparr>,
      identify = (\<lambda>c. DefiniteMatch)\<rparr>,
      \<lparr>metadata = \<lparr>format_id = ''c'', title = ''C'', games = [], glob = [],
        limits = \<lparr>maxFilenameLen = None, maxFileCount = None\<rparr>\<rparr>,
      identify = (\<lambda>c. DefiniteNoMatch)\<rparr>]"
     "[\<lparr>metadata = \<lparr>format_id = ''a'', title = ''A'', games = [], glob = [],
        limits = \<lparr>maxFilenameLen = None, maxFileCount = None\<rparr>\<rparr>,
      identify = (\<lambda>c. PossibleMatch)\<rparr>]"
     "\<lparr>metadata = \<lparr>format_id = ''b'', title = ''B'', games = [], glob = [],
        limits = \<lparr>maxFilenameLen = None, maxFileCount = None\<rparr>\<rparr>,
      identify = (\<lambda>c. DefiniteMatch)\<rparr>"
     "[\<lparr>metadata = \<lparr>format_id = ''c'', title = ''C'', games = [], glob = [],
        limits = \<lparr>maxFilenameLen = None, maxFileCount = None\<rparr>\<rparr>,
      identify = (\<lambda>c. DefiniteNoMatch)\<rparr>]"
     "[]"]
  by simp

text \<open>
  Claim C5. When no handler of the registry returns a definite match, \<open>findHandler\<close>
  returns the handlers that returned a possible match, in registry order, and no
  other handler.
\<close>

theorem findHandler_ambiguity:
  assumes "\<forall>h\<in>set fileTypes. identify h content \<noteq> DefiniteMatch"
  shows "findHandler fileTypes content
           = filter (\<lambda>h. identify h content = PossibleMatch) fileTypes"
  using assms by (simp add: findHandler_def findHandler_some_no_definite)

theorem findHandler_ambiguity_witness:
  "findHandler
     [\<lparr>metadata = \<lparr>format_id = ''a'', title = ''A'', games = [], glob = [],
        limits = \<lparr>maxFilenameLen = None, maxFileCount = None\<rparr>\<rparr>,
      identify = (\<lambda>c. PossibleMatch)\<rparr>,
      \<lparr>metadata = \<lparr>format_id = ''c'', title = ''C'', games = [], glob = [],
        limits = \<lparr>maxFilenameLen = None, maxFileCount = None\<rparr>\<rparr>,
      identify = (\<lambda>c. DefiniteNoMatch)\<rparr>,
      \<lparr>metadata = \<lparr>format_id = ''d'', title = ''D'', games = [], glob = [],
        limits = \<lparr>maxFilenameLen = None, maxFileCount = None\<rparr>\<rparr>,
      identify = (\<lambda>c. PossibleMatch)\<rparr>] []
   = [\<lparr>metadata = \<lparr>format_id = ''a'', title = ''A'', games = [], glob = [],
        limits = \<lparr>maxFilenameLen = None, maxFileCount = None\<rparr>\<rparr>,
      identify = (\<lambda>c. PossibleMatch)\<rparr>,
      \<lparr>metadata = \<lparr>format_id = ''d'', title = ''D'', games = [], glob = [],
        limits = \<lparr>maxFilenameLen = None, maxFileCount = None\<rparr>\<rparr>,
      identify = (\<lambda>c. PossibleMatch)\<rparr>]"
  using findHandler_ambiguity
    [of "[\<lparr>metadata = \<lparr>format_id = ''a'', title = ''A'', games = [], glob = [],
        limits = \<lparr>maxFilenameLen = None, maxFileCount = None\<rparr>\<rparr>,
      identify = (\<lambda>c. PossibleMatch)\<rparr>,
      \<lparr>metadata = \<lparr>format_id = ''c'', title = ''C'', games = [], glob = [],
        limits = \<lparr>maxFilenameLen = None, maxFileCount = None\<rparr>\<rparr>,
      identify = (\<lambda>c. DefiniteNoMatch)\<rparr>,
      \<lparr>metadata = \<lparr>format_id = ''d'', title = ''D'', games = [], glob = [],
        limits = \<lparr>maxFilenameLen = None, maxFileCount = None\<rparr>\<rparr>,
      identify = (\<lambda>c. PossibleMatch)\<rparr>]"
     "[]"]
  by simp

section \<open>checkLimits\<close>

lemma forEach_check_filename:
  "forEach fs (check_filename lim) s =
     s\<lparr>issues := issues s @ map (\<lambda>f. filenameIssue f lim)
                               (filter (\<lambda>f. exceeds (length (name f)) lim) fs)\<rparr>"
  by (induction fs arbitrary: s) (simp_all add: check_filename_def)

lemma forEach_check_nativeSize_issues:
  "issues (forEach fs check_nativeSize s) = issues s"
  by (induction fs arbitrary: s) (simp_all add: check_nativeSize_def Let_def)



lemma checkLimits_eq:
  "checkLimits md a =
     (if truthy (maxFileCount (limits md)) \<and> exceeds (length (files a)) (maxFileCount (limits md))
      then [fileCountIssue (length (files a)) (maxFileCount (limits md))] else [])
     @ (if truthy (maxFilenameLen (limits md))
        then map (\<lambda>f. filenameIssue f (maxFilenameLen (limits md)))
               (filter (\<lambda>f. exceeds (length (name f)) (maxFilenameLen (limits md))) (files a))
        else [])"
  by (simp add: checkLimits_def checkLimits_run_def Let_def forEach_check_nativeSize_issues
      forEach_check_filename)

text \<open>
  Claim C7, as stated, for every limit that is set: more files than \<open>maxFileCount\<close>
  give one issue. This is false when the limit is set to 0: one file is more than 0
  files, and no issue is returned.
\<close>

theorem checkLimits_fileCount_zero_counterexample:
  "maxFileCount (limits \<lparr>format_id = ''x'', title = ''X'', games = [], glob = [],
      limits = \<lparr>maxFilenameLen = None, maxFileCount = Some 0\<rparr>\<rparr>) = Some 0
   \<and> int (length (files \<lparr>files = [\<lparr>name = ''a'', nativeSize = 1, getContent = [0]\<rparr>]\<rparr>)) > 0
   \<and> checkLimits
       \<lparr>format_id = ''x'', title = ''X'', games = [], glob = [],
      limits = \<lparr>maxFilenameLen = None, maxFileCount = Some 0\<rparr>\<rparr>
       \<lparr>files = [\<lparr>name = ''a'', nativeSize = 1, getContent = [0]\<rparr>]\<rparr> = []"
  by (simp add: checkLimits_eq truthy_def)

text \<open>
  Claim C7, amended. When \<open>maxFileCount\<close> is set to a number \<open>m\<close> other than 0, the
  issues start with one string that names the number of files and \<open>m\<close> if there are
  more than \<open>m\<close> files, and with no such string otherwise; whatever follows is an issue
  about the length of a file name.
\<close>

theorem checkLimits_fileCount:
  assumes "maxFileCount (limits md) = Some m" and "m \<noteq> 0"
  shows "checkLimits md a =
     (if int (length (files a)) > m
      then [''There are '' @ number_string (int (length (files a)))
            @ '' files to save, but this archive format can only store up to ''
            @ number_string m @ '' files.'']
      else [])
     @ map (\<lambda>f. filenameIssue f (maxFilenameLen (limits md)))
         (filter (\<lambda>f. truthy (maxFilenameLen (limits md))
                      \<and> exceeds (length (name f)) (maxFilenameLen (limits md))) (files a))"
  using assms
  by (simp add: checkLimits_eq truthy_def exceeds_def fileCountIssue_def limit_string_def)

theorem checkLimits_fileCount_witness:
  "maxFileCount (limits \<lparr>format_id = ''x'', title = ''X'', games = [], glob = [],
      limits = \<lparr>maxFilenameLen = None, maxFileCount = Some 3\<rparr>\<rparr>) = Some 3
   \<and> (3::int) \<noteq> 0
   \<and> checkLimits
       \<lparr>format_id = ''x'', title = ''X'', games = [], glob = [],
      limits = \<lparr>maxFilenameLen = None, maxFileCount = Some 3\<rparr>\<rparr>
       \<lparr>files = [\<lparr>name = ''a'', nativeSize = 1, getContent = [0]\<rparr>,
      \<lparr>name = ''b'', nativeSize = 1, getContent = [0]\<rparr>,
      \<lparr>name = ''c'', nativeSize = 1, getContent = [0]\<rparr>,
      \<lparr>name = ''d'', nativeSize = 1, getContent = [0]\<rparr>,
      \<lparr>name = ''e'', nativeSize = 1, getContent = [0]\<rparr>]\<rparr>
     = [''There are 5 files to save, but this archive format can only store up to 3 files.'']"
  using checkLimits_fileCount
    [of "\<lparr>format_id = ''x'', title = ''X'', games = [], glob = [],
      limits = \<lparr>maxFilenameLen = None, maxFileCount = Some 3\<rparr>\<rparr>"
     3
     "\<lparr>files = [\<lparr>name = ''a'', nativeSize = 1, getContent = [0]\<rparr>,
      \<lparr>name = ''b'', nativeSize = 1, getContent = [0]\<rparr>,
      \<lparr>name = ''c'', nativeSize = 1, getContent = [0]\<rparr>,
      \<lparr>name = ''d'', nativeSize = 1, getContent = [0]\<rparr>,
      \<lparr>name = ''e'', nativeSize = 1, getContent = [0]\<rparr>]\<rparr>"]
  by (simp add: number_string_def digits.simps truthy_def)


lemma the_archive_check_nativeSize [simp]:
  "the_archive (check_nativeSize f s) = the_archive s"
  by (simp add: check_nativeSize_def Let_def)




text \<open>
  The calls are not hidden by \<open>checkLimits\<close>: an exception raised by \<open>getContent\<close> on an
  entry whose \<open>nativeSize\<close> is 0 comes out of it.
\<close>

lemma checkLimits_call_raises:
  "checkLimits_call
     (Inr \<lparr>format_id = ''x'', title = ''X'', games = [], glob = [],
      limits = \<lparr>maxFilenameLen = None, maxFileCount = Some 1\<rparr>\<rparr>)
     (\<lambda>f \<sigma>. Inl (Error ''no content''))
     \<lparr>files = [\<lparr>name = ''a'', nativeSize = 0, getContent = [1, 2]\<rparr>,
      \<lparr>name = ''b'', nativeSize = 1, getContent = [0]\<rparr>]\<rparr>
   = Inl (Error ''no content'')"
  by (simp add: checkLimits_call_def check_nativeSize_call_def truthy_def exceeds_def)

text \<open>
  Claim C9. A limit set to 0 acts as no limit at all. With \<open>maxFileCount = 0\<close> no issue
  about the number of files is returned, however many files there are: the issues are
  the ones about file names. With \<open>maxFilenameLen = 0\<close> no issue about a file name is
  returned, whatever the names are: the only possible issue is the one about the number
  of files. With both limits at 0 there is no issue at all.
\<close>

theorem checkLimits_zero_limit:
  "checkLimits (md\<lparr>limits := \<lparr>maxFilenameLen = fl, maxFileCount = Some 0\<rparr>\<rparr>) a
     = map (\<lambda>f. filenameIssue f fl)
         (filter (\<lambda>f. truthy fl \<and> exceeds (length (name f)) fl) (files a))
   \<and> checkLimits (md\<lparr>limits := \<lparr>maxFilenameLen = fl, maxFileCount = Some 0\<rparr>\<rparr>) a
     = checkLimits (md\<lparr>limits := \<lparr>maxFilenameLen = fl, maxFileCount = None\<rparr>\<rparr>) a
   \<and> checkLimits (md\<lparr>limits := \<lparr>maxFilenameLen = Some 0, maxFileCount = fc\<rparr>\<rparr>) a
     = (if truthy fc \<and> exceeds (length (files a)) fc
        then [fileCountIssue (length (files a)) fc] else [])
   \<and> checkLimits (md\<lparr>limits := \<lparr>maxFilenameLen = Some 0, maxFileCount = fc\<rparr>\<rparr>) a
     = checkLimits (md\<lparr>limits := \<lparr>maxFilenameLen = None, maxFileCount = fc\<rparr>\<rparr>) a
   \<and> checkLimits (md\<lparr>limits := \<lparr>maxFilenameLen = Some 0, maxFileCount = Some 0\<rparr>\<rparr>) a = []"
  by (simp add: checkLimits_eq truthy_def exceeds_def)

section \<open>toPlanar does not test the plane width\<close>

lemma length_fold_toPlanar_plane [simp]:
  "length (fold (toPlanar_plane widthBytes pixelBit data outpos pixelByte) bs out) = length out"
  by (induction bs arbitrary: out) (simp_all add: toPlanar_plane_def)

lemma length_toPlanar_step [simp]:
  "length (snd (toPlanar_step content planes planeWidth msb widthBytes i st)) = length (snd st)"
  by (simp add: toPlanar_step_def Let_def)

lemma length_fold_toPlanar_step [simp]:
  "length (snd (fold (toPlanar_step content planes planeWidth msb widthBytes) js st))
     = length (snd st)"
  by (induction js arbitrary: st) simp_all

text \<open>
  Claim C10. With a plane width of 0 or less, \<open>toPlanar\<close> never fails with an \<open>Error\<close>
  about its arguments, whatever \<open>planes\<close> is, and for a plane count, \<open>planes \<ge> 0\<close>, it
  returns a buffer of \<open>content.length * planes / 8\<close> bytes, rounded down; \<open>fromPlanar\<close>
  on the same arguments fails.
\<close>

theorem toPlanar_no_planeWidth_check:
  assumes "planeWidth \<le> 0"
  shows "toPlanar content planes planeWidth byteOrderMSB \<noteq> Inl (Error msg) \<and>
         (0 \<le> planes \<longrightarrow>
            (\<exists>out. toPlanar content planes planeWidth byteOrderMSB = Inr out \<and>
                   length out = (length content * nat planes) div 8)) \<and>
         (\<exists>e. fromPlanar content planes planeWidth byteOrderMSB = Inl e)"
proof -
  have a: "toPlanar content planes planeWidth byteOrderMSB \<noteq> Inl (Error msg)"
    by (auto simp: toPlanar_def new_Uint8Array_def Let_def split: sum.splits if_splits)
  have b: "\<exists>out. toPlanar content planes planeWidth byteOrderMSB = Inr out \<and>
                   length out = (length content * nat planes) div 8" if "0 \<le> planes"
  proof -
    have "int (length content) * planes div 8 = int ((length content * nat planes) div 8)"
      using that by (simp add: zdiv_int)
    then show ?thesis
      using that by (simp add: toPlanar_def new_Uint8Array_nonneg Let_def)
  qed
  have c: "\<exists>e. fromPlanar content planes planeWidth byteOrderMSB = Inl e"
    using assms by (simp add: fromPlanar_def ceil_div8_nonpos split: sum.split)
  from a b c show ?thesis by blast
qed

theorem toPlanar_no_planeWidth_check_witness:
  "(0::int) \<le> 0 \<and> toPlanar [1, 2, 3, 4, 5, 6, 7, 8] 4 0 True \<noteq> Inl (Error ''x'') \<and>
   (\<exists>out. toPlanar [1, 2, 3, 4, 5, 6, 7, 8] 4 0 True = Inr out \<and> length out = 4) \<and>
   (\<exists>e. fromPlanar [1, 2, 3, 4, 5, 6, 7, 8] 4 0 True = Inl e)"
  using toPlanar_no_planeWidth_check [of 0 "[1, 2, 3, 4, 5, 6, 7, 8]" 4 True "''x''"]
  by simp

section \<open>The range of the pixels fromPlanar returns\<close>

lemma ucast_or_store: "(ucast ((ucast (x::u8) :: i32) OR v) :: u8) = x OR ucast v"
  by (rule bit_word_eqI) (auto simp: bit_simps)

lemma take_bit_shifted_bit:
  "s < P \<Longrightarrow> take_bit P (ucast (push_bit s (d AND 1) :: i32) :: u8)
               = ucast (push_bit s (d AND 1) :: i32)"
  by (rule bit_word_eqI) (auto simp: bit_simps)

lemma or_assign_small:
  assumes "\<forall>x\<in>set out. take_bit P x = x" and "take_bit P (ucast v :: u8) = ucast v"
  shows "\<forall>x\<in>set (or_assign out idx v). take_bit P x = x"
proof (cases idx)
  case None
  with assms show ?thesis by (simp add: or_assign_def)
next
  case (Some j)
  show ?thesis
  proof (cases "0 \<le> j \<and> j < int (length out)")
    case True
    then have n: "nat j < length out" by linarith
    let ?y = "out ! nat j OR ucast v"
    have "take_bit P (out ! nat j) = out ! nat j"
      using assms(1) n by simp
    then have y: "take_bit P ?y = ?y"
      using assms(2) by (simp only: take_bit_or)
    have "set (out[nat j := ?y]) \<subseteq> insert ?y (set out)"
      by (rule set_update_subset_insert)
    then have "\<forall>x\<in>set (out[nat j := ?y]). take_bit P x = x"
      using assms(1) y by blast
    moreover have "or_assign out idx v = out[nat j := ?y]"
      using True Some by (simp add: or_assign_def ucast_or_store)
    ultimately show ?thesis by (simp only:)
  next
    case False
    then have "or_assign out idx v = out"
      using Some by (auto simp: or_assign_def)
    with assms(1) show ?thesis by (simp only:)
  qed
qed

lemma fold_fromPlanar_pixel_small:
  assumes "\<forall>x\<in>set out. take_bit P x = x" and "p mod 32 < P"
  shows "\<forall>x\<in>set (fold (fromPlanar_pixel content msb i (Some p) outpos) bs out).
           take_bit P x = x"
  using assms(1)
proof (induction bs arbitrary: out)
  case Nil
  then show ?case by simp
next
  case (Cons b bs)
  have "\<forall>x\<in>set (fromPlanar_pixel content msb i (Some p) outpos b out). take_bit P x = x"
    unfolding fromPlanar_pixel_def Let_def option.case
    by (rule or_assign_small [OF Cons.prems take_bit_shifted_bit [OF assms(2)]])
  then show ?case by (simp add: Cons.IH)
qed

lemma js_rem_pos: "1 \<le> b \<Longrightarrow> js_rem a b = Some (a mod nat b)"
  by (simp add: js_rem_def)

lemma fromPlanar_loop_small:
  assumes "1 \<le> planes" and "\<forall>x\<in>set out. take_bit (nat planes) x = x"
  shows "\<forall>x\<in>set (fromPlanar_loop content planes planeWidth msb widthBytes i outpos out).
           take_bit (nat planes) x = x"
  using assms
proof (induction content planes planeWidth msb widthBytes i outpos out
    rule: fromPlanar_loop.induct)
  case (1 content planes planeWidth msb widthBytes i outpos out)
  show ?case
  proof (cases "widthBytes \<noteq> 0 \<and> i < length content")
    case False
    then show ?thesis using "1.prems" by (auto simp: fromPlanar_loop.simps)
  next
    case True
    let ?p = "(i div widthBytes) mod nat planes"
    have pl: "js_rem (i div widthBytes) planes = Some ?p"
      using "1.prems"(1) by (rule js_rem_pos)
    have "?p < nat planes" using "1.prems"(1) by simp
    then have lt: "?p mod 32 < nat planes"
      using mod_less_eq_dividend [of ?p 32] by linarith
    have mid: "\<forall>x\<in>set (fold (fromPlanar_pixel content msb i (Some ?p) outpos)
                 [0..<planeWidth] out). take_bit (nat planes) x = x"
      by (rule fold_fromPlanar_pixel_small [OF "1.prems"(2) lt])
    show ?thesis
      using True "1.IH" [OF _ _ refl refl refl "1.prems"(1)] mid
      by (subst fromPlanar_loop.simps) (simp add: pl Let_def)
  qed
qed

lemma small_unat: "take_bit P (x::u8) = x \<Longrightarrow> unat x < 2 ^ P"
  by (metis take_bit_nat_less_exp unsigned_take_bit_eq)

text \<open>
  Claim C6. For \<open>planes \<ge> 1\<close> and \<open>planeWidth > 0\<close>, \<open>fromPlanar\<close> returns a buffer,
  and every byte of it is a palette index below \<open>2 ^ planes\<close>.
\<close>

theorem fromPlanar_palette_range:
  assumes "1 \<le> planes" and "0 < planeWidth"
  shows "\<exists>out. fromPlanar content planes planeWidth byteOrderMSB = Inr out
               \<and> (\<forall>x\<in>set out. unat x < 2 ^ nat planes)"
proof -
  let ?out0 = "replicate (nat (int (length content) * 8 div planes)) (0::u8)"
  let ?out = "fromPlanar_loop content planes (nat planeWidth) byteOrderMSB
                (nat (ceil_div8 planeWidth)) 0 0 ?out0"
  have "fromPlanar content planes planeWidth byteOrderMSB = Inr ?out"
    using assms ceil_div8_pos [of planeWidth]
    by (simp add: fromPlanar_def new_Uint8Array_nonneg Let_def)
  moreover have "\<forall>x\<in>set ?out. take_bit (nat planes) x = x"
    by (rule fromPlanar_loop_small [OF assms(1)]) simp
  ultimately show ?thesis by (auto intro: small_unat)
qed

theorem fromPlanar_palette_range_witness:
  "(1::int) \<le> 2 \<and> (0::int) < 8 \<and>
   (\<exists>out. fromPlanar [0xAA, 0x55] 2 8 True = Inr out \<and> list_all (\<lambda>x. unat x < 4) out)"
  using fromPlanar_palette_range [of 2 8 "[0xAA, 0x55]" True]
  by (simp add: list_all_iff)


section \<open>The round trip through fromPlanar and toPlanar\<close>

subsection \<open>What each loop leaves in every bit of its output\<close>

text \<open>
  \<open>or_assign\<close> changes one byte at most, and there it adds the low eight bits of the
  value.
\<close>

lemma bit_or_assign:
  assumes "j < length out"
  shows "bit (or_assign out (Some idx) v ! j) q
           \<longleftrightarrow> bit (out ! j) q \<or> (idx = int j \<and> q < 8 \<and> bit v q)"
proof (cases "0 \<le> idx \<and> idx < int (length out)")
  case True
  then have eq: "or_assign out (Some idx) v = out[nat idx := out ! nat idx OR ucast v]"
    by (simp add: or_assign_def ucast_or_store)
  show ?thesis
  proof (cases "nat idx = j")
    case True
    with \<open>0 \<le> idx \<and> idx < int (length out)\<close> assms show ?thesis
      by (auto simp: eq bit_simps)
  next
    case False
    with \<open>0 \<le> idx \<and> idx < int (length out)\<close> assms show ?thesis
      by (auto simp: eq)
  qed
next
  case False
  then have "or_assign out (Some idx) v = out"
    by (auto simp: or_assign_def)
  with False assms show ?thesis by auto
qed

lemma bit_selected:
  "bit (push_bit s (drop_bit n d AND 1) :: i32) q \<longleftrightarrow> q = s \<and> s < 32 \<and> bit d n"
  by (auto simp: bit_simps)

lemma length_fold_fromPlanar_pixel [simp]:
  "length (fold (fromPlanar_pixel content msb i plane outpos) bs out) = length out"
  by (induction bs arbitrary: out) (simp_all add: fromPlanar_pixel_def Let_def)

lemma length_fromPlanar_loop [simp]:
  "length (fromPlanar_loop content planes planeWidth msb widthBytes i outpos out) = length out"
proof (induction content planes planeWidth msb widthBytes i outpos out
    rule: fromPlanar_loop.induct)
  case (1 content planes planeWidth msb widthBytes i outpos out)
  show ?case
  proof (cases "widthBytes \<noteq> 0 \<and> i < length content")
    case False
    then show ?thesis by (auto simp: fromPlanar_loop.simps)
  next
    case True
    then show ?thesis
      using "1.IH" [OF _ _ refl refl refl]
      by (subst fromPlanar_loop.simps) (simp add: Let_def)
  qed
qed

lemma bit_fold_fromPlanar_pixel:
  assumes "j < length out"
  shows "bit (fold (fromPlanar_pixel content msb i (Some p) outpos) bs out ! j) q
     \<longleftrightarrow> bit (out ! j) q
        \<or> (\<exists>b\<in>set bs. outpos + b = j \<and> q < 8 \<and> q = p mod 32
              \<and> bit (read_int32 content (i + b div 8))
                    (if msb then 7 - b mod 8 else b mod 8))"
  using assms
proof (induction bs arbitrary: out)
  case Nil
  then show ?case by simp
next
  case (Cons b bs)
  let ?out' = "fromPlanar_pixel content msb i (Some p) outpos b out"
  have len: "j < length ?out'"
    using Cons.prems by (simp add: fromPlanar_pixel_def Let_def)
  have step: "bit (?out' ! j) q \<longleftrightarrow> bit (out ! j) q
        \<or> (outpos + b = j \<and> q < 8 \<and> q = p mod 32
              \<and> bit (read_int32 content (i + b div 8))
                    (if msb then 7 - b mod 8 else b mod 8))"
    unfolding fromPlanar_pixel_def Let_def option.case
    by (subst bit_or_assign [OF Cons.prems]) (auto simp only: bit_selected of_nat_eq_iff)
  show ?case
    using Cons.IH [OF len] step by auto
qed


text \<open>
  The outer loop of \<open>fromPlanar\<close>, entered at stride \<open>k\<close> with \<open>outpos\<close> at the start of
  the run of pixels that stride belongs to: bit \<open>q\<close> of pixel \<open>j\<close> is set at the end if it
  was set before, or if some stride \<open>k'\<close> from \<open>k\<close> on and some pixel \<open>b\<close> of it land
  on \<open>j\<close>, the plane of \<open>k'\<close> is \<open>q\<close>, and the source bit is set.
\<close>

lemma bit_fromPlanar_loop:
  assumes "1 \<le> planes" and "0 < W" and "i = k * W"
    and "outpos = (k div nat planes) * PW" and "j < length out"
  shows "bit (fromPlanar_loop content planes PW msb W i outpos out ! j) q
     \<longleftrightarrow> bit (out ! j) q
        \<or> (\<exists>k' b. k \<le> k' \<and> k' * W < length content \<and> b < PW
              \<and> (k' div nat planes) * PW + b = j \<and> q < 8 \<and> q = (k' mod nat planes) mod 32
              \<and> bit (read_int32 content (k' * W + b div 8))
                    (if msb then 7 - b mod 8 else b mod 8))"
  using assms
proof (induction content planes PW msb W i outpos out arbitrary: k
    rule: fromPlanar_loop.induct)
  case (1 content planes PW msb W i outpos out)
  let ?P = "nat planes"
  have P: "0 < ?P" using "1.prems"(1) by simp
  show ?case
  proof (cases "i < length content")
    case False
    have "\<not> k' * W < length content" if "k \<le> k'" for k'
    proof -
      have "k * W \<le> k' * W" using that by (rule mult_le_mono1)
      with False "1.prems"(3) show ?thesis by linarith
    qed
    then have none: "\<not> (\<exists>k' b. k \<le> k' \<and> k' * W < length content \<and> b < PW
              \<and> (k' div nat planes) * PW + b = j \<and> q < 8 \<and> q = (k' mod nat planes) mod 32
              \<and> bit (read_int32 content (k' * W + b div 8))
                    (if msb then 7 - b mod 8 else b mod 8))"
      by blast
    have "fromPlanar_loop content planes PW msb W i outpos out = out"
      using False by (subst fromPlanar_loop.simps) simp
    then show ?thesis
      using none by (simp only: simp_thms)
  next
    case True
    let ?p = "k mod ?P"
    let ?out' = "fold (fromPlanar_pixel content msb i (Some ?p) outpos) [0..<PW] out"
    let ?outpos' = "if Suc ?p = ?P then outpos + PW else outpos"
    have kW: "i div W = k" using "1.prems"(2,3) by simp
    have pl: "js_rem (i div W) planes = Some ?p"
      using "1.prems"(1) by (simp add: js_rem_pos kW)
    have cond: "(map_option int (Some ?p) = Some (planes - 1)) = (Suc ?p = ?P)"
      using "1.prems"(1) by auto
    have unfold: "fromPlanar_loop content planes PW msb W i outpos out
                    = fromPlanar_loop content planes PW msb W (i + W) ?outpos' ?out'"
      using True "1.prems"(2)
      by (subst fromPlanar_loop.simps) (simp only: pl cond Let_def, simp)
    have next_i: "i + W = Suc k * W" using "1.prems"(3) by simp
    have next_pos: "?outpos' = (Suc k div ?P) * PW"
      using "1.prems"(4) P by (simp add: div_Suc mod_Suc)
    have len': "j < length ?out'" using "1.prems"(5) by simp
    have IH: "bit (fromPlanar_loop content planes PW msb W (i + W) ?outpos' ?out' ! j) q
        \<longleftrightarrow> bit (?out' ! j) q
        \<or> (\<exists>k' b. Suc k \<le> k' \<and> k' * W < length content \<and> b < PW
              \<and> (k' div nat planes) * PW + b = j \<and> q < 8 \<and> q = (k' mod nat planes) mod 32
              \<and> bit (read_int32 content (k' * W + b div 8))
                    (if msb then 7 - b mod 8 else b mod 8))"
    proof -
      have w0: "W \<noteq> 0" using "1.prems"(2) by simp
      have c3: "?outpos' = (if map_option int (Some ?p) = Some (planes - 1)
                            then outpos + PW else outpos)"
        by (simp only: cond)
      show ?thesis
        by (rule "1.IH" [OF w0 True pl [symmetric] refl c3 "1.prems"(1,2) next_i next_pos len'])
    qed
    have here: "bit (?out' ! j) q \<longleftrightarrow> bit (out ! j) q
        \<or> (\<exists>b. b < PW \<and> (k div ?P) * PW + b = j \<and> q < 8 \<and> q = ?p mod 32
              \<and> bit (read_int32 content (k * W + b div 8))
                    (if msb then 7 - b mod 8 else b mod 8))"
      using "1.prems"(3,4)
      by (subst bit_fold_fromPlanar_pixel [OF "1.prems"(5)]) auto
    have split: "(k \<le> k') = (k' = k \<or> Suc k \<le> k')" for k' by auto
    show ?thesis
      unfolding unfold IH here split
      using True "1.prems"(3) by auto
  qed
qed

lemma bit_fold_toPlanar_plane:
  assumes "j < length out" and "pixelBit < 8"
  shows "bit (fold (toPlanar_plane W pixelBit data outpos (Some pb)) bs out ! j) s
     \<longleftrightarrow> bit (out ! j) s
        \<or> (\<exists>b\<in>set bs. outpos + int pb + int b * W = int j \<and> s = pixelBit
              \<and> bit data (b mod 32))"
  using assms(1)
proof (induction bs arbitrary: out)
  case Nil
  then show ?case by simp
next
  case (Cons b bs)
  let ?out' = "toPlanar_plane W pixelBit data outpos (Some pb) b out"
  have len: "j < length ?out'"
    using Cons.prems by (simp add: toPlanar_plane_def Let_def)
  have step: "bit (?out' ! j) s \<longleftrightarrow> bit (out ! j) s
        \<or> (outpos + int pb + int b * W = int j \<and> s = pixelBit \<and> bit data (b mod 32))"
    unfolding toPlanar_plane_def Let_def option.map
    using assms(2)
    by (subst bit_or_assign [OF Cons.prems]) (auto simp only: bit_selected)
  show ?case
    using Cons.IH [OF len] step by auto
qed

lemma toPlanar_step_eq:
  assumes "0 < P" and "0 < W" and "0 < PW"
  shows "toPlanar_step lin (int P) (int PW) msb (int W) i (outpos, out) =
     ((if Suc (i mod PW) = PW then outpos + int P * int W else outpos),
      fold (toPlanar_plane (int W) (if msb then 7 - i mod 8 else i mod 8) (read_int32 lin i)
              outpos (Some (i div 8 mod W))) [0..<P] out)"
proof -
  have a: "js_rem (i div 8) (int W) = Some (i div 8 mod W)"
    using assms by (simp add: js_rem_def)
  have b: "js_rem i (int PW) = Some (i mod PW)"
    using assms by (simp add: js_rem_def)
  have c: "(map_option int (Some (i mod PW)) = Some (int PW - 1)) = (Suc (i mod PW) = PW)"
    using assms by auto
  show ?thesis
    by (simp only: toPlanar_step_def Let_def a b c fst_conv snd_conv nat_int)
qed

text \<open>
  The outer loop of \<open>toPlanar\<close> after \<open>n\<close> pixels: \<open>outpos\<close> has advanced once for each
  full run of \<open>PW\<close> pixels, and bit \<open>s\<close> of byte \<open>j\<close> is set if it was set before, or
  if some pixel \<open>i < n\<close> and some plane \<open>b\<close> land on byte \<open>j\<close> at bit \<open>s\<close> and bit
  \<open>b\<close> of the pixel is set.
\<close>

lemma fold_toPlanar_step:
  assumes "0 < P" and "0 < W" and "0 < PW"
  shows "\<exists>out. fold (toPlanar_step lin (int P) (int PW) msb (int W)) [0..<n] (0, out0)
             = (int ((n div PW) * P * W), out)
     \<and> length out = length out0
     \<and> (\<forall>j s. j < length out0 \<longrightarrow>
          (bit (out ! j) s \<longleftrightarrow> bit (out0 ! j) s
            \<or> (\<exists>i b. i < n \<and> b < P \<and> (i div PW) * P * W + i div 8 mod W + b * W = j
                  \<and> s = (if msb then 7 - i mod 8 else i mod 8)
                  \<and> bit (read_int32 lin i) (b mod 32))))"
proof (induction n)
  case 0
  show ?case by simp
next
  case (Suc n)
  then obtain out where
    run: "fold (toPlanar_step lin (int P) (int PW) msb (int W)) [0..<n] (0, out0)
             = (int ((n div PW) * P * W), out)"
    and len: "length out = length out0"
    and bits: "\<And>j s. j < length out0 \<Longrightarrow>
          (bit (out ! j) s \<longleftrightarrow> bit (out0 ! j) s
            \<or> (\<exists>i b. i < n \<and> b < P \<and> (i div PW) * P * W + i div 8 mod W + b * W = j
                  \<and> s = (if msb then 7 - i mod 8 else i mod 8)
                  \<and> bit (read_int32 lin i) (b mod 32)))"
    by blast
  let ?pb = "if msb then 7 - n mod 8 else n mod 8"
  let ?out' = "fold (toPlanar_plane (int W) ?pb (read_int32 lin n)
              (int ((n div PW) * P * W)) (Some (n div 8 mod W))) [0..<P] out"
  have pos: "(if Suc (n mod PW) = PW then int ((n div PW) * P * W) + int P * int W
              else int ((n div PW) * P * W)) = int ((Suc n div PW) * P * W)"
    using assms(3) by (simp add: div_Suc mod_Suc algebra_simps)
  have run': "fold (toPlanar_step lin (int P) (int PW) msb (int W)) [0..<Suc n] (0, out0)
             = (int ((Suc n div PW) * P * W), ?out')"
    by (simp only: upt_Suc_append [OF le0] fold_append o_apply fold_simps run
        toPlanar_step_eq [OF assms] pos)
  have pb: "?pb < 8" by auto
  have bits': "bit (?out' ! j) s \<longleftrightarrow> bit (out0 ! j) s
            \<or> (\<exists>i b. i < Suc n \<and> b < P \<and> (i div PW) * P * W + i div 8 mod W + b * W = j
                  \<and> s = (if msb then 7 - i mod 8 else i mod 8)
                  \<and> bit (read_int32 lin i) (b mod 32))" if j: "j < length out0" for j s
  proof -
    have j': "j < length out" using j len by simp
    have idx: "(int ((n div PW) * P * W) + int (n div 8 mod W) + int b * int W = int j)
                = ((n div PW) * P * W + n div 8 mod W + b * W = j)" for b
      by (simp only: of_nat_mult [symmetric] of_nat_add [symmetric] of_nat_eq_iff)
    have here: "bit (?out' ! j) s \<longleftrightarrow> bit (out ! j) s
        \<or> (\<exists>b. b < P \<and> (n div PW) * P * W + n div 8 mod W + b * W = j \<and> s = ?pb
              \<and> bit (read_int32 lin n) (b mod 32))"
      by (subst bit_fold_toPlanar_plane [OF j' pb]) (auto simp only: idx set_upt atLeastLessThan_iff)
    have split: "(i < Suc n) = (i = n \<or> i < n)" for i by auto
    show ?thesis
      unfolding here bits [OF j] split by blast
  qed
  show ?case
    using run' len bits' by (intro exI [of _ ?out']) simp
qed

lemma bit_read_int32:
  "bit (read_int32 xs i) q \<longleftrightarrow> i < length xs \<and> bit (xs ! i) q"
  by (auto simp: read_int32_def bit_simps dest: bit_imp_le_length)

lemma pixel_index_div:
  fixes W b c :: nat
  assumes "b < 8 * W"
  shows "(c * (8 * W) + b) div (8 * W) = c"
    and "(c * (8 * W) + b) div 8 mod W = b div 8"
    and "(c * (8 * W) + b) mod 8 = b mod 8"
proof -
  show "(c * (8 * W) + b) div (8 * W) = c" using assms by simp
  have "(c * (8 * W) + b) div 8 = c * W + b div 8"
  proof -
    have "c * (8 * W) + b = b + (c * W) * 8" by simp
    then show ?thesis by simp
  qed
  moreover have "b div 8 < W" using assms by (simp add: less_mult_imp_div_less mult.commute)
  ultimately show "(c * (8 * W) + b) div 8 mod W = b div 8" by simp
  have "c * (8 * W) + b = b + (c * W) * 8" by simp
  then show "(c * (8 * W) + b) mod 8 = b mod 8" by (simp only: mod_mult_self1)
qed

lemma stride_index: "(k div P) * P * W + k mod P * W = k * (W::nat)"
proof -
  have "(k div P) * P * W + k mod P * W = ((k div P) * P + k mod P) * W"
    by (simp only: add_mult_distrib)
  also have "(k div P) * P + k mod P = k"
    by (rule div_mult_mod_eq)
  finally show ?thesis .
qed

text \<open>
  The two descriptions composed, for a plane width of \<open>8 * W\<close> and at most eight
  planes: the pixels and planes that land on bit \<open>s\<close> of byte \<open>j\<close> in \<open>toPlanar\<close> were
  read by \<open>fromPlanar\<close> from bit \<open>s\<close> of byte \<open>j\<close> of the content.
\<close>

lemma round_trip_bits:
  fixes P W m :: nat
  assumes P: "0 < P" "P \<le> 8" and W: "0 < W"
    and n: "length content = m * (W * P)" and j: "j < length content"
  shows "(\<exists>i b. i < m * (8 * W) \<and> b < P
            \<and> (i div (8 * W)) * P * W + i div 8 mod W + b * W = j
            \<and> s = (if msb then 7 - i mod 8 else i mod 8)
            \<and> (\<exists>k b0. k * W < length content \<and> b0 < 8 * W \<and> (k div P) * (8 * W) + b0 = i
                  \<and> b mod 32 < 8 \<and> b mod 32 = (k mod P) mod 32
                  \<and> bit (read_int32 content (k * W + b0 div 8))
                        (if msb then 7 - b0 mod 8 else b0 mod 8)))
         \<longleftrightarrow> bit (content ! j) s"
    (is "?L \<longleftrightarrow> ?R")
proof
  assume ?L
  then obtain i b k b0 where
    b: "b < P"
    and idx: "(i div (8 * W)) * P * W + i div 8 mod W + b * W = j"
    and s: "s = (if msb then 7 - i mod 8 else i mod 8)"
    and b0: "b0 < 8 * W"
    and i: "(k div P) * (8 * W) + b0 = i"
    and bk: "b mod 32 = (k mod P) mod 32"
    and src: "bit (read_int32 content (k * W + b0 div 8)) (if msb then 7 - b0 mod 8 else b0 mod 8)"
    by blast
  have "k mod P < P" using P by simp
  then have "k mod P < 32" and "b < 32" using b P by linarith+
  then have bk': "b = k mod P" using bk by simp
  have "j = (k div P) * P * W + b0 div 8 + k mod P * W"
    using idx by (simp only: i [symmetric] pixel_index_div [OF b0] bk')
  then have jk: "j = k * W + b0 div 8"
    using stride_index [of k P W] by simp
  have "s = (if msb then 7 - b0 mod 8 else b0 mod 8)"
    using s by (simp only: i [symmetric] pixel_index_div [OF b0])
  with src jk show ?R by (simp add: bit_read_int32)
next
  assume R: ?R
  then have s8: "s < 8" by (auto dest: bit_imp_le_length)
  define t where "t = (if msb then 7 - s else s)"
  define k where "k = j div W"
  define b0 where "b0 = 8 * (j mod W) + t"
  define i where "i = (k div P) * (8 * W) + b0"
  have "7 - s < (8::nat)" by linarith
  then have t8: "t < 8" using s8 by (simp add: t_def)
  have "j mod W < W" using W by simp
  then have "8 * (j mod W) + 8 \<le> 8 * W" by simp
  then have b0: "b0 < 8 * W" using t8 by (simp add: b0_def)
  have b0div: "b0 div 8 = j mod W" and b0mod: "b0 mod 8 = t"
    using t8 by (simp_all add: b0_def)
  have kW: "k * W \<le> j" by (simp add: k_def)
  have jk: "k * W + b0 div 8 = j" by (simp add: k_def b0div)
  have "j < m * P * W" using j n by (simp add: ac_simps)
  with kW have "k * W < m * P * W" by (rule le_less_trans)
  then have "k < m * P" by simp
  then have "k div P < m" using P by (simp add: less_mult_imp_div_less)
  then have "(k div P + 1) * (8 * W) \<le> m * (8 * W)"
    by (intro mult_le_mono1) simp
  then have i_lt: "i < m * (8 * W)" using b0 by (simp add: i_def)
  have kmod: "k mod P < P" using P by simp
  have idx: "(i div (8 * W)) * P * W + i div 8 mod W + k mod P * W = j"
    using stride_index [of k P W] jk
    by (simp only: i_def pixel_index_div [OF b0])
  have s: "s = (if msb then 7 - i mod 8 else i mod 8)"
    using s8 by (simp only: i_def pixel_index_div [OF b0] b0mod) (simp add: t_def)
  have srcbit: "(if msb then 7 - b0 mod 8 else b0 mod 8) = s"
    using s8 by (simp add: b0mod t_def)
  have src: "bit (read_int32 content (k * W + b0 div 8)) (if msb then 7 - b0 mod 8 else b0 mod 8)"
    using R j by (simp only: jk srcbit bit_read_int32)
  have "k mod P < 8" using kmod P by linarith
  then have small: "(k mod P) mod 32 < 8" by simp
  have klt: "k * W < length content" using kW j by simp
  have i_eq: "(k div P) * (8 * W) + b0 = i" by (simp only: i_def)
  have same: "(k mod P) mod 32 = (k mod P) mod 32" by (rule refl)
  from klt b0 i_eq small same src
  have inner: "\<exists>k' b0'. k' * W < length content \<and> b0' < 8 * W
                  \<and> (k' div P) * (8 * W) + b0' = i
                  \<and> (k mod P) mod 32 < 8 \<and> (k mod P) mod 32 = (k' mod P) mod 32
                  \<and> bit (read_int32 content (k' * W + b0' div 8))
                        (if msb then 7 - b0' mod 8 else b0' mod 8)"
    by blast
  from i_lt kmod idx s inner show ?L
    by blast
qed

lemma ceil_div8_mult: "ceil_div8 (8 * w) = w"
  by (simp add: ceil_div8_def)

lemma round_trip_loops:
  fixes P W m :: nat and msb :: bool and content :: "u8 list"
  assumes P: "0 < P" "P \<le> 8" and W: "0 < W" and n: "length content = m * (W * P)"
  defines "lin \<equiv> fromPlanar_loop content (int P) (8 * W) msb W 0 0 (replicate (m * (8 * W)) 0)"
  shows "snd (fold (toPlanar_step lin (int P) (int (8 * W)) msb (int W)) [0..<length lin]
                (0, replicate (length content) 0)) = content"
proof -
  have L: "length lin = m * (8 * W)" by (simp add: lin_def)
  have lin_bits: "bit (lin ! i) q \<longleftrightarrow>
      (\<exists>k b0. k * W < length content \<and> b0 < 8 * W \<and> (k div P) * (8 * W) + b0 = i
          \<and> q < 8 \<and> q = (k mod P) mod 32
          \<and> bit (read_int32 content (k * W + b0 div 8))
                (if msb then 7 - b0 mod 8 else b0 mod 8))" if i: "i < m * (8 * W)" for i q
  proof -
    have p1: "1 \<le> int P" using P by simp
    have i': "i < length (replicate (m * (8 * W)) (0::u8))" using i by simp
    have z: "bit (replicate (m * (8 * W)) (0::u8) ! i) q = False" using i by simp
    have "bit (fromPlanar_loop content (int P) (8 * W) msb W 0 0
                 (replicate (m * (8 * W)) 0) ! i) q
       \<longleftrightarrow> bit (replicate (m * (8 * W)) (0::u8) ! i) q
        \<or> (\<exists>k' b. 0 \<le> k' \<and> k' * W < length content \<and> b < 8 * W
              \<and> (k' div nat (int P)) * (8 * W) + b = i \<and> q < 8
              \<and> q = (k' mod nat (int P)) mod 32
              \<and> bit (read_int32 content (k' * W + b div 8))
                    (if msb then 7 - b mod 8 else b mod 8))"
      by (rule bit_fromPlanar_loop [OF p1 W _ _ i']) simp_all
    then show ?thesis
      unfolding lin_def by (simp only: z nat_int le0 simp_thms)
  qed
  obtain out where
    run: "fold (toPlanar_step lin (int P) (int (8 * W)) msb (int W)) [0..<length lin]
            (0, replicate (length content) 0) = (int ((length lin div (8 * W)) * P * W), out)"
    and len: "length out = length (replicate (length content) (0::u8))"
    and bits: "\<And>j s. j < length (replicate (length content) (0::u8)) \<Longrightarrow>
          (bit (out ! j) s \<longleftrightarrow> bit (replicate (length content) (0::u8) ! j) s
            \<or> (\<exists>i b. i < length lin \<and> b < P
                  \<and> (i div (8 * W)) * P * W + i div 8 mod W + b * W = j
                  \<and> s = (if msb then 7 - i mod 8 else i mod 8)
                  \<and> bit (read_int32 lin i) (b mod 32)))"
    using fold_toPlanar_step [OF P(1) W, of "8 * W" lin msb "length lin"
        "replicate (length content) 0"] W
    by auto
  have len': "length out = length content" using len by simp
  have "out ! j = content ! j" if j: "j < length content" for j
  proof (rule bit_word_eqI)
    fix s
    have j0: "j < length (replicate (length content) (0::u8))" using j by simp
    have z: "bit (replicate (length content) (0::u8) ! j) s = False" using j by simp
    have rd: "(i < length lin \<and> A \<and> B \<and> C \<and> bit (read_int32 lin i) (b mod 32))
         = (i < m * (8 * W) \<and> A \<and> B \<and> C \<and>
             (\<exists>k b0. k * W < length content \<and> b0 < 8 * W \<and> (k div P) * (8 * W) + b0 = i
                \<and> b mod 32 < 8 \<and> b mod 32 = (k mod P) mod 32
                \<and> bit (read_int32 content (k * W + b0 div 8))
                      (if msb then 7 - b0 mod 8 else b0 mod 8)))" for i b A B C
    proof (cases "i < m * (8 * W)")
      case True
      show ?thesis
        by (simp only: bit_read_int32 L True lin_bits [OF True] simp_thms)
    next
      case False
      show ?thesis
        by (simp only: L False simp_thms)
    qed
    show "bit (out ! j) s = bit (content ! j) s"
      unfolding bits [OF j0] z rd simp_thms
      by (rule round_trip_bits [OF P W n j])
  qed
  then have "out = content"
    using len' by (intro nth_equalityI) simp_all
  then show ?thesis by (simp only: run snd_conv)
qed

text \<open>The law for every number of planes from 1 to 8.\<close>

lemma round_trip_upto8:
  assumes "1 \<le> planes" and "planes \<le> 8" and "0 < planeWidth" and "planeWidth mod 8 = 0"
    and "length content mod (nat (ceil_div8 planeWidth) * nat planes) = 0"
  shows "\<exists>lin. fromPlanar content planes planeWidth byteOrderMSB = Inr lin
               \<and> toPlanar lin planes planeWidth byteOrderMSB = Inr content"
proof -
  define P where "P = nat planes"
  define W where "W = nat (planeWidth div 8)"
  have planes: "planes = int P" using assms(1) by (simp add: P_def)
  have P: "0 < P" "P \<le> 8" using assms(1,2) by (simp_all add: P_def)
  have "planeWidth = 8 * (planeWidth div 8)"
    using assms(4) by presburger
  moreover have "0 \<le> planeWidth div 8"
    using assms(3) by simp
  ultimately have pw: "planeWidth = 8 * int W"
    by (simp add: W_def)
  have W: "0 < W" using assms(3) pw by simp
  have cd: "ceil_div8 planeWidth = int W" by (simp only: pw ceil_div8_mult)
  have "(W * P) dvd length content"
    using assms(5) by (simp add: cd P_def mod_eq_0_iff_dvd)
  then obtain m where n: "length content = m * (W * P)"
    by (auto simp: dvd_def mult.commute)
  let ?lin = "fromPlanar_loop content (int P) (8 * W) byteOrderMSB W 0 0
                (replicate (m * (8 * W)) 0)"
  have cd': "ceil_div8 (8 * int W) = int W" by (rule ceil_div8_mult)
  have npw: "nat (8 * int W) = 8 * W" by simp
  have notle: "\<not> int W \<le> 0" using W by simp
  have e: "int (8 * W) = 8 * int W" by simp
  have alloc1: "new_Uint8Array (int (length content) * 8) (int P)
                  = Inr (replicate (m * (8 * W)) 0)"
  proof -
    have "length content * 8 = (m * (8 * W)) * P" by (simp add: n)
    then have d: "length content * 8 div P = m * (8 * W)" using P by simp
    have "int (length content) * 8 div int P = int (length content * 8 div P)"
      by (simp add: zdiv_int)
    then have "int (length content) * 8 div int P = int (m * (8 * W))"
      by (simp only: d)
    then show ?thesis using P by (simp only: new_Uint8Array_nonneg nat_int)
  qed
  have alloc2: "new_Uint8Array (int (length ?lin) * int P) 8
                  = Inr (replicate (length content) 0)"
  proof -
    have "length ?lin * P = length content * 8" by (simp add: n)
    then have d: "length ?lin * P div 8 = length content" by simp
    have "int (length ?lin) * int P div 8 = int (length ?lin * P div 8)"
      by (simp add: zdiv_int del: length_fromPlanar_loop)
    then have "int (length ?lin) * int P div 8 = int (length content)"
      by (simp only: d)
    then show ?thesis by (simp only: new_Uint8Array_nonneg nat_int)
  qed
  have dec: "fromPlanar content (int P) (8 * int W) byteOrderMSB = Inr ?lin"
    by (simp only: fromPlanar_def alloc1 cd' Let_def sum.case notle if_False npw nat_int)
  have "toPlanar ?lin (int P) (8 * int W) byteOrderMSB
          = Inr (snd (fold (toPlanar_step ?lin (int P) (8 * int W) byteOrderMSB (int W))
                        [0..<length ?lin] (0, replicate (length content) 0)))"
    by (simp only: toPlanar_def alloc2 cd' Let_def sum.case)
  then have "toPlanar ?lin (int P) (8 * int W) byteOrderMSB = Inr content"
    by (simp only: e [symmetric] round_trip_loops [OF P W n])
  with dec show ?thesis unfolding planes pw by blast
qed

subsection \<open>The round-trip law\<close>

text \<open>
  Claim C1, as stated, for every \<open>planeWidth > 0\<close>. This is false when the plane width is
  not a multiple of 8. With one plane and a plane width of 4, each byte of the content
  holds one run of four pixels in its upper half, and a content of any length is a
  multiple of the block size, 1. The lower half of a byte is never read, so \<open>0xFF\<close>
  comes back as \<open>0xF0\<close>. And \<open>fromPlanar\<close> reads the two runs \<open>1111\<close> and \<open>1010\<close> of
  the bytes \<open>0xF0, 0xA0\<close>, but \<open>toPlanar\<close> writes the second run into the lower half of
  its byte: the content comes back as \<open>0xF0, 0x0A\<close>.
\<close>

theorem planar_round_trip_counterexample:
  "length [0xFF :: u8] mod (nat (ceil_div8 4) * nat 1) = 0 \<and>
   fromPlanar [0xFF] 1 4 True = Inr [1, 1, 1, 1, 0, 0, 0, 0] \<and>
   toPlanar [1, 1, 1, 1, 0, 0, 0, 0] 1 4 True = Inr [0xF0] \<and>
   length [0xF0, 0xA0 :: u8] mod (nat (ceil_div8 4) * nat 1) = 0 \<and>
   fromPlanar [0xF0, 0xA0] 1 4 True = Inr [1, 1, 1, 1, 1, 0, 1, 0, 0, 0, 0, 0, 0, 0, 0, 0] \<and>
   toPlanar [1, 1, 1, 1, 1, 0, 1, 0, 0, 0, 0, 0, 0, 0, 0, 0] 1 4 True = Inr [0xF0, 0x0A]"
  by code_simp

text \<open>
  Claim C1, amended. For \<open>planes\<close> in \<open>{1, 2, 4, 5, 8}\<close>, a plane width that is a
  positive multiple of 8, either bit order, and a content whose length is a multiple of
  \<open>ceil(planeWidth / 8) * planes\<close>, \<open>fromPlanar\<close> returns a buffer and \<open>toPlanar\<close> on
  that buffer, with the same parameters, returns the content byte for byte.
\<close>

theorem planar_round_trip:
  assumes "planes \<in> {1, 2, 4, 5, 8}" and "0 < planeWidth" and "planeWidth mod 8 = 0"
    and "length content mod (nat (ceil_div8 planeWidth) * nat planes) = 0"
  shows "\<exists>lin. fromPlanar content planes planeWidth byteOrderMSB = Inr lin
               \<and> toPlanar lin planes planeWidth byteOrderMSB = Inr content"
proof -
  have "1 \<le> planes" and "planes \<le> 8"
    using assms(1) by auto
  then show ?thesis
    using assms(2,3,4) by (rule round_trip_upto8)
qed

theorem planar_round_trip_witness:
  "(4::int) \<in> {1, 2, 4, 5, 8} \<and> (0::int) < 16 \<and> (16::int) mod 8 = 0
   \<and> length [0x12, 0x34, 0x56, 0x78, 0x9A, 0xBC, 0xDE, 0xF0 :: u8]
         mod (nat (ceil_div8 16) * nat 4) = 0
   \<and> (\<exists>lin. fromPlanar [0x12, 0x34, 0x56, 0x78, 0x9A, 0xBC, 0xDE, 0xF0] 4 16 False = Inr lin
          \<and> toPlanar lin 4 16 False = Inr [0x12, 0x34, 0x56, 0x78, 0x9A, 0xBC, 0xDE, 0xF0])"
  using planar_round_trip [of 4 16 "[0x12, 0x34, 0x56, 0x78, 0x9A, 0xBC, 0xDE, 0xF0]" False]
  by (simp add: ceil_div8_def)

end
